theory Spec2Isabelle
  imports Main
begin

section \<open>The Connect-Four rules engine (connect_four_logic.py)\<close>

subsection \<open>Constants of class ConnectFour\<close>

definition ROWS :: int where "ROWS = 6"
definition COLS :: int where "COLS = 7"
definition CONNECT :: int where "CONNECT = 4"

definition EMPTY :: int where "EMPTY = 0"
definition PLAYER1 :: int where "PLAYER1 = 1"
definition PLAYER2 :: int where "PLAYER2 = 2"

subsection \<open>Exceptions and the engine state\<close>

text \<open>
  The exceptions a call can raise: the two the engine raises itself, with their messages,
  and the ones the dictionary and the numpy array raise on a bad key, a bad index or a
  value outside the array's 64-bit integer range.
\<close>

datatype error =
    RuntimeError string
  | ValueError string
  | KeyError int
  | IndexError
  | OverflowError

text \<open>
  The attributes of a ConnectFour object. The board is the numpy array as a list of rows;
  \<open>next_row\<close> is the dictionary \<open>_next_row\<close>; \<open>winner\<close> is \<open>None\<close> or a player.
\<close>

record game =
  board :: "int list list"
  next_row :: "int \<rightharpoonup> int"
  current_player :: int
  moves_made :: int
  game_over :: bool
  winner :: "int option"

subsection \<open>Indexing the numpy array\<close>

text \<open>
  An index into an axis of length \<open>n\<close>: numpy accepts \<open>-n \<le> i < n\<close>, a negative index
  counting from the end, and raises IndexError otherwise.
\<close>

definition np_index :: "nat \<Rightarrow> int \<Rightarrow> nat option" where
  "np_index n i =
     (if 0 \<le> i \<and> i < int n then Some (nat i)
      else if - int n \<le> i \<and> i < 0 then Some (nat (int n + i))
      else None)"

definition np_get :: "int list list \<Rightarrow> int \<Rightarrow> int \<Rightarrow> error + int" where
  "np_get b r c =
     (case np_index (length b) r of
        None \<Rightarrow> Inl IndexError
      | Some i \<Rightarrow>
          (case np_index (length (b ! i)) c of
             None \<Rightarrow> Inl IndexError
           | Some j \<Rightarrow> Inr (b ! i ! j)))"

definition np_set :: "int list list \<Rightarrow> int \<Rightarrow> int \<Rightarrow> int \<Rightarrow> error + int list list" where
  "np_set b r c v =
     (case np_index (length b) r of
        None \<Rightarrow> Inl IndexError
      | Some i \<Rightarrow>
          (case np_index (length (b ! i)) c of
             None \<Rightarrow> Inl IndexError
           | Some j \<Rightarrow>
               if - (2 ^ 63) \<le> v \<and> v < 2 ^ 63 then Inr (b[i := (b ! i)[j := v]])
               else Inl OverflowError))"

subsection \<open>reset\<close>

text \<open>
  \<open>reset\<close> assigns every attribute: a zero array of shape (ROWS, COLS), the dictionary
  \<open>{c: ROWS - 1 for c in range(COLS)}\<close>, PLAYER1 to move, no move made, not over, no winner.
\<close>

definition reset :: "game \<Rightarrow> game" where
  "reset s =
     s\<lparr>board := replicate (nat ROWS) (replicate (nat COLS) 0),
       next_row := map_of (map (\<lambda>c. (c, ROWS - 1)) [0..COLS - 1]),
       current_player := PLAYER1,
       moves_made := 0,
       game_over := False,
       winner := None\<rparr>"

text \<open>
  The constructor sets every attribute to None and calls \<open>reset\<close>, which overwrites them
  all; the record below stands for the attributes before that call.
\<close>

definition new_game :: game where
  "new_game =
     reset \<lparr>board = [], next_row = Map.empty, current_player = 0, moves_made = 0,
            game_over = False, winner = None\<rparr>"

subsection \<open>Win detection\<close>

text \<open>
  One of the two while loops of \<open>_count_consecutive\<close>: from \<open>(r, c)\<close>, step by \<open>(dr, dc)\<close>
  while the cell is inside the ROWS x COLS bounds and holds \<open>piece\<close>, counting. The value
  None stands for a loop that never ends (as with \<open>dr = dc = 0\<close> on a matching cell).
\<close>

partial_function (option) walk ::
  "int list list \<Rightarrow> int \<Rightarrow> int \<Rightarrow> int \<Rightarrow> int \<Rightarrow> int \<Rightarrow> int \<Rightarrow> (error + int) option" where
  "walk b r c dr dc piece count =
     (if 0 \<le> r \<and> r < ROWS \<and> 0 \<le> c \<and> c < COLS then
        (case np_get b r c of
           Inl e \<Rightarrow> Some (Inl e)
         | Inr v \<Rightarrow>
             if v = piece then walk b (r + dr) (c + dc) dr dc piece (count + 1)
             else Some (Inr count))
      else Some (Inr count))"

declare walk.simps [code]

definition count_consecutive ::
  "game \<Rightarrow> int \<Rightarrow> int \<Rightarrow> int \<Rightarrow> int \<Rightarrow> int \<Rightarrow> (error + int) option" where
  "count_consecutive s row col dr dc piece =
     (case walk (board s) (row + dr) (col + dc) dr dc piece 1 of
        None \<Rightarrow> None
      | Some (Inl e) \<Rightarrow> Some (Inl e)
      | Some (Inr count) \<Rightarrow> walk (board s) (row - dr) (col - dc) (- dr) (- dc) piece count)"

text \<open>The for loop of \<open>_is_winning_move\<close> over the direction vectors still to try.\<close>

fun any_direction ::
  "game \<Rightarrow> int \<Rightarrow> int \<Rightarrow> int \<Rightarrow> (int \<times> int) list \<Rightarrow> (error + bool) option" where
  "any_direction s row col piece [] = Some (Inr False)"
| "any_direction s row col piece ((dr, dc) # ds) =
     (case count_consecutive s row col dr dc piece of
        None \<Rightarrow> None
      | Some (Inl e) \<Rightarrow> Some (Inl e)
      | Some (Inr n) \<Rightarrow>
          if n \<ge> CONNECT then Some (Inr True) else any_direction s row col piece ds)"

definition directions :: "(int \<times> int) list" where
  "directions = [(0, 1), (1, 0), (1, 1), (1, - 1)]"

definition is_winning_move :: "game \<Rightarrow> int \<Rightarrow> int \<Rightarrow> (error + bool) option" where
  "is_winning_move s row col =
     (case np_get (board s) row col of
        Inl e \<Rightarrow> Some (Inl e)
      | Inr piece \<Rightarrow> any_direction s row col piece directions)"

subsection \<open>drop_piece\<close>

text \<open>
  A call returns the state it leaves behind together with either the exception raised or
  the returned pair; None stands for a call that never returns.
\<close>

definition drop_piece :: "game \<Rightarrow> int \<Rightarrow> (game \<times> (error + int \<times> int)) option" where
  "drop_piece s col =
     (if game_over s then Some (s, Inl (RuntimeError ''The game is already finished.''))
      else if \<not> (0 \<le> col \<and> col < COLS) then
        Some (s, Inl (ValueError ''Column must be between 0 and 6.''))
      else
        (case next_row s col of
           None \<Rightarrow> Some (s, Inl (KeyError col))
         | Some row \<Rightarrow>
             if row < 0 then Some (s, Inl (ValueError ''That column is full.''))
             else
               (case np_set (board s) row col (current_player s) of
                  Inl e \<Rightarrow> Some (s, Inl e)
                | Inr b' \<Rightarrow>
                    let s1 = s\<lparr>board := b'\<rparr>;
                        s2 = s1\<lparr>next_row := (next_row s1)(col \<mapsto> row - 1)\<rparr>;
                        s3 = s2\<lparr>moves_made := moves_made s2 + 1\<rparr>
                    in (case is_winning_move s3 row col of
                          None \<Rightarrow> None
                        | Some (Inl e) \<Rightarrow> Some (s3, Inl e)
                        | Some (Inr won) \<Rightarrow>
                            if won then
                              Some (s3\<lparr>game_over := True,
                                       winner := Some (current_player s3)\<rparr>,
                                    Inr (row, col))
                            else if moves_made s3 = ROWS * COLS then
                              Some (s3\<lparr>game_over := True\<rparr>, Inr (row, col))
                            else
                              Some (s3\<lparr>current_player :=
                                         (if current_player s3 = PLAYER1 then PLAYER2
                                          else PLAYER1)\<rparr>,
                                    Inr (row, col))))))"

text \<open>
  A sequence of calls that all succeed, from a state: the columns played, in order.
  The result is None as soon as one call raises or does not return.
\<close>

fun play :: "game \<Rightarrow> int list \<Rightarrow> game option" where
  "play s [] = Some s"
| "play s (col # cols) =
     (case drop_piece s col of
        Some (s', Inr rc) \<Rightarrow> play s' cols
      | _ \<Rightarrow> None)"

section \<open>Notions used to state the properties\<close>

subsection \<open>Boards\<close>

text \<open>
  A board of the shape \<open>np.zeros((ROWS, COLS))\<close> creates, the only shape an engine's array
  ever has: assigning to an element does not change it.
\<close>

definition wf_board :: "int list list \<Rightarrow> bool" where
  "wf_board b \<longleftrightarrow> length b = nat ROWS \<and> (\<forall>row \<in> set b. length row = nat COLS)"

definition in_bounds :: "int \<Rightarrow> int \<Rightarrow> bool" where
  "in_bounds r c \<longleftrightarrow> 0 \<le> r \<and> r < ROWS \<and> 0 \<le> c \<and> c < COLS"

text \<open>The content of the cell \<open>(r, c)\<close>, and the board with \<open>v\<close> written there.\<close>

definition cell :: "int list list \<Rightarrow> int \<Rightarrow> int \<Rightarrow> int" where
  "cell b r c = b ! nat r ! nat c"

definition place :: "int list list \<Rightarrow> int \<Rightarrow> int \<Rightarrow> int \<Rightarrow> int list list" where
  "place b r c v = b[nat r := (b ! nat r)[nat c := v]]"

subsection \<open>Lines of discs, as the specification counts them\<close>

text \<open>
  \<open>run_length\<close> is the number of cells met when leaving \<open>(row, col)\<close> in the direction
  \<open>(dr, dc)\<close>, for as long as the cell is in bounds and holds \<open>piece\<close>. No line on the board
  has more than \<open>ROWS + COLS\<close> cells, so looking that far is looking far enough.
  \<open>line_length\<close> counts the cell itself as 1 and adds the runs on both sides.
\<close>

definition matches :: "int list list \<Rightarrow> int \<Rightarrow> int \<Rightarrow> int \<Rightarrow> bool" where
  "matches b piece r c \<longleftrightarrow> in_bounds r c \<and> cell b r c = piece"

definition run_length :: "int list list \<Rightarrow> int \<Rightarrow> int \<Rightarrow> int \<Rightarrow> int \<Rightarrow> int \<Rightarrow> nat" where
  "run_length b row col dr dc piece =
     length (takeWhile (\<lambda>k. matches b piece (row + int k * dr) (col + int k * dc))
               [1..<Suc (nat (ROWS + COLS))])"

definition line_length :: "int list list \<Rightarrow> int \<Rightarrow> int \<Rightarrow> int \<Rightarrow> int \<Rightarrow> int \<Rightarrow> int" where
  "line_length b row col dr dc piece =
     1 + int (run_length b row col dr dc piece) + int (run_length b row col (- dr) (- dc) piece)"

definition four_in_line :: "int list list \<Rightarrow> int \<Rightarrow> int \<Rightarrow> int \<Rightarrow> bool" where
  "four_in_line b row col piece \<longleftrightarrow>
     (\<exists>(dr, dc) \<in> set directions. line_length b row col dr dc piece \<ge> CONNECT)"

subsection \<open>States of an engine\<close>

text \<open>
  What every state of an engine satisfies by construction: the array has its shape, the
  dictionary has an entry between \<open>-1\<close> and \<open>ROWS - 1\<close> for each column, and the player to
  move is one of the two players.
\<close>

definition well_formed :: "game \<Rightarrow> bool" where
  "well_formed s \<longleftrightarrow>
     wf_board (board s) \<and>
     (\<forall>c. 0 \<le> c \<and> c < COLS \<longrightarrow> (\<exists>r. next_row s c = Some r \<and> - 1 \<le> r \<and> r < ROWS)) \<and>
     (current_player s = PLAYER1 \<or> current_player s = PLAYER2)"

text \<open>
  The state after the three assignments that place a disc, and the state a successful call
  leaves: the former with the game ended by a win, ended by a draw, or the turn passed.
\<close>

definition placed :: "game \<Rightarrow> int \<Rightarrow> int \<Rightarrow> game" where
  "placed s row col =
     s\<lparr>board := place (board s) row col (current_player s),
       next_row := (next_row s)(col \<mapsto> row - 1),
       moves_made := moves_made s + 1\<rparr>"

definition outcome :: "game \<Rightarrow> int \<Rightarrow> int \<Rightarrow> game" where
  "outcome s row col =
     (let s3 = placed s row col in
      if four_in_line (board s3) row col (current_player s) then
        s3\<lparr>game_over := True, winner := Some (current_player s)\<rparr>
      else if moves_made s3 = ROWS * COLS then s3\<lparr>game_over := True\<rparr>
      else s3\<lparr>current_player := (if current_player s = PLAYER1 then PLAYER2 else PLAYER1)\<rparr>)"

subsection \<open>The three failures of a move\<close>

text \<open>
  The specification's names for the three exceptions \<open>drop_piece\<close> raises. The last two
  are both a ValueError and differ in their message.
\<close>

definition InvalidState :: error where
  "InvalidState = RuntimeError ''The game is already finished.''"

definition InvalidColumn :: error where
  "InvalidColumn = ValueError ''Column must be between 0 and 6.''"

definition ColumnFull :: error where
  "ColumnFull = ValueError ''That column is full.''"

text \<open>The Python class of an exception, by its name.\<close>

fun exception_type :: "error \<Rightarrow> string" where
  "exception_type (RuntimeError m) = ''RuntimeError''"
| "exception_type (ValueError m) = ''ValueError''"
| "exception_type (KeyError k) = ''KeyError''"
| "exception_type IndexError = ''IndexError''"
| "exception_type OverflowError = ''OverflowError''"

subsection \<open>Example boards and games\<close>

definition example_board :: "int list list" where
  "example_board =
     [[0, 0, 0, 0, 0, 0, 0],
      [0, 0, 0, 0, 0, 0, 0],
      [0, 0, 0, 1, 0, 0, 0],
      [0, 0, 1, 2, 0, 0, 0],
      [0, 1, 2, 2, 0, 0, 0],
      [1, 2, 1, 2, 1, 0, 0]]"

text \<open>
  Games from a new engine, as the columns played: player 1 stacking four discs in column 0,
  games one move short of a row and of a diagonal of player 1, a column filled to the top, and a game
  that fills the board without four in a line (the last one without its last move first).
\<close>

definition column_game :: "int list" where
  "column_game = [0, 1, 0, 1, 0, 1, 0]"

definition row_game :: "int list" where
  "row_game = [0, 0, 1, 1, 2, 2]"

definition diagonal_game :: "int list" where
  "diagonal_game = [0, 1, 2, 3, 4, 2, 1, 3, 2, 3]"

definition full_column_game :: "int list" where
  "full_column_game = [0, 0, 0, 0, 0, 0]"

definition draw_prefix :: "int list" where
  "draw_prefix =
     [0, 0, 0, 0, 0, 0, 1, 1, 1, 1, 1, 1, 2, 2, 2, 2, 2, 2, 6,
      3, 3, 3, 3, 3, 3, 4, 4, 4, 4, 4, 4, 5, 5, 5, 5, 5, 5, 6, 6, 6, 6]"

definition draw_game :: "int list" where
  "draw_game = draw_prefix @ [6]"

subsection \<open>Discs on the board and the moves that put them there\<close>

text \<open>The number of cells of the board that are not EMPTY.\<close>

definition count_nonempty :: "int list list \<Rightarrow> nat" where
  "count_nonempty b = length (filter (\<lambda>v. v \<noteq> EMPTY) (concat b))"

text \<open>The rows of column \<open>c\<close> whose cell is not EMPTY, from the top down.\<close>

definition column_discs :: "int list list \<Rightarrow> int \<Rightarrow> int list" where
  "column_discs b c = filter (\<lambda>r. cell b r c \<noteq> EMPTY) [0..ROWS - 1]"

text \<open>
  Column \<open>c\<close> after \<open>k\<close> discs: its next free row is \<open>ROWS - 1 - k\<close> and its cells that are
  not EMPTY are those of the \<open>k\<close> bottom rows.
\<close>

definition column_filled :: "game \<Rightarrow> int \<Rightarrow> nat \<Rightarrow> bool" where
  "column_filled s c k \<longleftrightarrow>
     next_row s c = Some (ROWS - 1 - int k) \<and> int k \<le> ROWS \<and>
     (\<forall>r. 0 \<le> r \<and> r < ROWS \<longrightarrow> (cell (board s) r c \<noteq> EMPTY) = (ROWS - int k \<le> r))"

text \<open>
  What holds of the state reached by the successful moves \<open>h\<close> (the columns played, in
  order) of a game.
\<close>

definition consistent :: "game \<Rightarrow> int list \<Rightarrow> bool" where
  "consistent s h \<longleftrightarrow>
     wf_board (board s) \<and>
     (\<forall>c. 0 \<le> c \<and> c < COLS \<longrightarrow> column_filled s c (count_list h c)) \<and>
     (current_player s = PLAYER1 \<or> current_player s = PLAYER2) \<and>
     (\<forall>r c. in_bounds r c \<longrightarrow>
        cell (board s) r c = EMPTY \<or> cell (board s) r c = PLAYER1 \<or>
        cell (board s) r c = PLAYER2) \<and>
     moves_made s = int (length h) \<and>
     moves_made s = int (count_nonempty (board s)) \<and>
     (\<not> game_over s \<longrightarrow> winner s = None)"

text \<open>The state of a new engine after the moves \<open>cols\<close>, when they all succeed.\<close>

definition after :: "int list \<Rightarrow> game" where
  "after cols = the (play new_game cols)"

section \<open>Properties of the array operations\<close>

lemma np_index_nonneg: "0 \<le> i \<Longrightarrow> i < int n \<Longrightarrow> np_index n i = Some (nat i)"
  by (simp add: np_index_def)

lemma wf_board_row: "wf_board b \<Longrightarrow> 0 \<le> r \<Longrightarrow> r < ROWS \<Longrightarrow> length (b ! nat r) = nat COLS"
  by (simp add: wf_board_def)

lemma np_get_wf:
  assumes "wf_board b" "in_bounds r c"
  shows "np_get b r c = Inr (cell b r c)"
proof -
  from assms have r: "0 \<le> r" "r < int (length b)"
    by (simp_all add: wf_board_def in_bounds_def)
  from assms have c: "0 \<le> c" "c < int (length (b ! nat r))"
    by (simp_all add: wf_board_row in_bounds_def)
  show ?thesis
    by (simp add: np_get_def np_index_nonneg [OF r] np_index_nonneg [OF c] cell_def)
qed

lemma np_set_wf:
  assumes "wf_board b" "in_bounds r c" "- (2 ^ 63) \<le> v" "v < 2 ^ 63"
  shows "np_set b r c v = Inr (place b r c v)"
proof -
  from assms have r: "0 \<le> r" "r < int (length b)"
    by (simp_all add: wf_board_def in_bounds_def)
  from assms have c: "0 \<le> c" "c < int (length (b ! nat r))"
    by (simp_all add: wf_board_row in_bounds_def)
  show ?thesis using assms(3,4)
    by (simp add: np_set_def np_index_nonneg [OF r] np_index_nonneg [OF c] place_def)
qed

lemma wf_board_place:
  assumes "wf_board b"
  shows "wf_board (place b r c v)"
proof (cases "nat r < length b")
  case True
  with assms have "length ((b ! nat r)[nat c := v]) = nat COLS"
    by (simp add: wf_board_def)
  with assms show ?thesis
    unfolding wf_board_def place_def
    by (auto dest!: subsetD [OF set_update_subset_insert])
next
  case False
  then have "length b \<le> nat r" by linarith
  then have "place b r c v = b"
    unfolding place_def by (rule list_update_beyond)
  with assms show ?thesis by simp
qed

lemma cell_place:
  assumes "wf_board b" "in_bounds r c" "in_bounds r' c'"
  shows "cell (place b r c v) r' c' = (if r' = r \<and> c' = c then v else cell b r' c')"
proof -
  from assms have r: "nat r < length b" "nat r' < length b"
    by (simp_all add: wf_board_def in_bounds_def)
  from assms have c: "nat c < length (b ! nat r)"
    by (simp add: wf_board_row in_bounds_def)
  from assms have eq: "(nat r' = nat r) = (r' = r)" "(nat c' = nat c) = (c' = c)"
    by (auto simp: in_bounds_def)
  show ?thesis using r c eq
    by (auto simp: cell_def place_def nth_list_update)
qed

lemma takeWhile_upt_Suc:
  "length (takeWhile P [Suc m..<Suc n]) = length (takeWhile (\<lambda>k. P (Suc k)) [m..<n])"
proof -
  have "[Suc m..<Suc n] = map Suc [m..<n]" by (simp add: map_Suc_upt)
  then show ?thesis by (simp add: takeWhile_map comp_def)
qed

lemma walk_wf:
  assumes "wf_board b"
  shows "\<exists>k<n. \<not> matches b piece (r + int k * dr) (c + int k * dc) \<Longrightarrow>
         walk b r c dr dc piece count =
           Some (Inr (count + int (length (takeWhile
             (\<lambda>k. matches b piece (r + int k * dr) (c + int k * dc)) [0..<n]))))"
proof (induction n arbitrary: r c count)
  case 0
  then show ?case by simp
next
  case (Suc n)
  let ?P = "\<lambda>k. matches b piece (r + int k * dr) (c + int k * dc)"
  show ?case
  proof (cases "matches b piece r c")
    case False
    then have stop: "walk b r c dr dc piece count = Some (Inr count)"
      using assms
      by (subst walk.simps) (auto simp: matches_def np_get_wf in_bounds_def)
    from False have "takeWhile ?P [0..<Suc n] = []"
      by (simp add: upt_conv_Cons del: upt_Suc)
    with stop show ?thesis by simp
  next
    case True
    then have step: "walk b r c dr dc piece count =
        walk b (r + dr) (c + dc) dr dc piece (count + 1)"
      using assms
      by (subst walk.simps) (auto simp: matches_def np_get_wf in_bounds_def)
    from Suc.prems obtain k where k: "k < Suc n" "\<not> ?P k" by blast
    with True have "k \<noteq> 0" by (cases k) auto
    then obtain j where j: "k = Suc j" by (cases k) auto
    with k have "\<exists>k<n. \<not> matches b piece (r + dr + int k * dr) (c + dc + int k * dc)"
      by (intro exI [of _ j]) (simp add: algebra_simps)
    from Suc.IH [OF this]
    have ih: "walk b (r + dr) (c + dc) dr dc piece (count + 1) =
        Some (Inr (count + 1 + int (length (takeWhile
          (\<lambda>k. matches b piece (r + dr + int k * dr) (c + dc + int k * dc)) [0..<n]))))" .
    have "length (takeWhile ?P [0..<Suc n]) = Suc (length (takeWhile ?P [Suc 0..<Suc n]))"
      using True by (simp add: upt_conv_Cons del: upt_Suc)
    also have "length (takeWhile ?P [Suc 0..<Suc n]) =
        length (takeWhile (\<lambda>k. ?P (Suc k)) [0..<n])"
      by (rule takeWhile_upt_Suc)
    also have "(\<lambda>k. ?P (Suc k)) =
        (\<lambda>k. matches b piece (r + dr + int k * dr) (c + dc + int k * dc))"
      by (simp add: algebra_simps)
    finally show ?thesis using step ih by simp
  qed
qed

lemma leaves_bounds:
  assumes "dr \<noteq> 0 \<or> dc \<noteq> 0"
  shows "\<exists>k<nat (ROWS + COLS). \<not> in_bounds (r + int k * dr) (c + int k * dc)"
proof (cases "in_bounds r c")
  case False
  then show ?thesis by (intro exI [of _ 0]) (simp add: ROWS_def COLS_def)
next
  case True
  have "\<not> in_bounds (r + int 7 * dr) (c + int 7 * dc)"
    using True assms by (auto simp: in_bounds_def ROWS_def COLS_def)
  then show ?thesis by (intro exI [of _ 7]) (simp add: ROWS_def COLS_def)
qed

text \<open>
  \<open>run_length\<close> is the length of the run: the cells at the steps 1 to \<open>run_length\<close> are in
  bounds and hold the piece, and the cell one step further is out of bounds or holds
  something else.
\<close>

lemma run_length_exact:
  assumes "dr \<noteq> 0 \<or> dc \<noteq> 0"
  shows "(\<forall>k. 1 \<le> k \<and> k \<le> run_length b row col dr dc piece \<longrightarrow>
            matches b piece (row + int k * dr) (col + int k * dc)) \<and>
         \<not> matches b piece (row + int (Suc (run_length b row col dr dc piece)) * dr)
              (col + int (Suc (run_length b row col dr dc piece)) * dc)"
proof -
  let ?P = "\<lambda>k. matches b piece (row + int k * dr) (col + int k * dc)"
  define N where "N = nat (ROWS + COLS)"
  define xs where "xs = [1..<Suc N]"
  define n where "n = run_length b row col dr dc piece"
  have n: "n = length (takeWhile ?P xs)"
    by (simp only: n_def run_length_def xs_def N_def)
  have len: "length xs = N"
    by (simp add: xs_def del: upt_Suc)
  have nth: "xs ! i = Suc i" if "i < N" for i
    using that by (simp add: xs_def nth_upt del: upt_Suc)
  have le: "n \<le> N"
    using length_takeWhile_le [of ?P xs] by (simp only: n len)
  have inside: "?P k" if "1 \<le> k \<and> k \<le> n" for k
  proof -
    from that have "k - 1 < n"
      by linarith
    then have i: "k - 1 < length (takeWhile ?P xs)"
      by (simp only: n)
    then have "takeWhile ?P xs ! (k - 1) \<in> set (takeWhile ?P xs)"
      by (rule nth_mem)
    moreover from i have "takeWhile ?P xs ! (k - 1) = xs ! (k - 1)"
      by (rule takeWhile_nth)
    moreover have "xs ! (k - 1) = k"
    proof -
      from le that have "k - 1 < N" by linarith
      then have "xs ! (k - 1) = Suc (k - 1)" by (rule nth)
      also from that have "Suc (k - 1) = k" by linarith
      finally show ?thesis .
    qed
    ultimately have "k \<in> set (takeWhile ?P xs)"
      by simp
    then show ?thesis
      by (rule set_takeWhileD [THEN conjunct2])
  qed
  obtain j where j: "j < N" "\<not> in_bounds (row + dr + int j * dr) (col + dc + int j * dc)"
    using leaves_bounds [OF assms] unfolding N_def by blast
  then have out: "\<not> ?P (Suc j)"
    by (simp add: matches_def algebra_simps)
  with inside have "\<not> Suc j \<le> n"
    by force
  with j have lt: "n < N"
    by simp
  then have "length (takeWhile ?P xs) < length xs"
    by (simp only: n len)
  then have "\<not> ?P (xs ! length (takeWhile ?P xs))"
    by (rule nth_length_takeWhile)
  with lt have "\<not> ?P (Suc n)"
    by (simp add: n [symmetric] nth)
  with inside show ?thesis
    unfolding n_def by blast
qed

lemma walk_run_length:
  assumes "wf_board b" "dr \<noteq> 0 \<or> dc \<noteq> 0"
  shows "walk b (row + dr) (col + dc) dr dc piece count =
           Some (Inr (count + int (run_length b row col dr dc piece)))"
proof -
  obtain k where "k < nat (ROWS + COLS)"
      "\<not> in_bounds (row + dr + int k * dr) (col + dc + int k * dc)"
    using leaves_bounds [OF assms(2)] by blast
  then have "\<exists>k<nat (ROWS + COLS).
      \<not> matches b piece (row + dr + int k * dr) (col + dc + int k * dc)"
    by (auto simp: matches_def)
  from walk_wf [OF assms(1) this]
  have "walk b (row + dr) (col + dc) dr dc piece count =
      Some (Inr (count + int (length (takeWhile
        (\<lambda>k. matches b piece (row + dr + int k * dr) (col + dc + int k * dc))
        [0..<nat (ROWS + COLS)]))))" .
  moreover have "(\<lambda>k. matches b piece (row + dr + int k * dr) (col + dc + int k * dc)) =
      (\<lambda>k. matches b piece (row + int (Suc k) * dr) (col + int (Suc k) * dc))"
    by (simp add: algebra_simps)
  ultimately show ?thesis
    unfolding run_length_def
    by (simp only: takeWhile_upt_Suc [of _ 0 "nat (ROWS + COLS)", unfolded One_nat_def [symmetric]])
qed

lemma count_consecutive_wf:
  assumes "wf_board (board s)" "dr \<noteq> 0 \<or> dc \<noteq> 0"
  shows "count_consecutive s row col dr dc piece =
           Some (Inr (line_length (board s) row col dr dc piece))"
proof -
  have fwd: "walk (board s) (row + dr) (col + dc) dr dc piece 1 =
      Some (Inr (1 + int (run_length (board s) row col dr dc piece)))"
    by (rule walk_run_length [OF assms])
  from assms(2) have "- dr \<noteq> 0 \<or> - dc \<noteq> 0" by simp
  from walk_run_length [OF assms(1) this]
  have bwd: "walk (board s) (row - dr) (col - dc) (- dr) (- dc) piece count =
      Some (Inr (count + int (run_length (board s) row col (- dr) (- dc) piece)))" for count
    by simp
  show ?thesis
    by (simp add: count_consecutive_def fwd bwd line_length_def)
qed

lemma any_direction_wf:
  assumes "wf_board (board s)"
  shows "\<forall>(dr, dc) \<in> set ds. dr \<noteq> 0 \<or> dc \<noteq> 0 \<Longrightarrow>
         any_direction s row col piece ds =
           Some (Inr (\<exists>(dr, dc) \<in> set ds. line_length (board s) row col dr dc piece \<ge> CONNECT))"
proof (induction ds)
  case Nil
  then show ?case by simp
next
  case (Cons d ds)
  obtain dr dc where d: "d = (dr, dc)" by (cases d)
  with Cons.prems have "dr \<noteq> 0 \<or> dc \<noteq> 0" by simp
  note cc = count_consecutive_wf [OF assms this, of row col piece]
  from Cons have "any_direction s row col piece ds =
      Some (Inr (\<exists>(dr, dc) \<in> set ds. line_length (board s) row col dr dc piece \<ge> CONNECT))"
    by simp
  then show ?case by (simp add: d cc)
qed

lemma is_winning_move_wf:
  assumes "wf_board (board s)" "in_bounds row col"
  shows "is_winning_move s row col =
           Some (Inr (four_in_line (board s) row col (cell (board s) row col)))"
proof -
  have "\<forall>(dr, dc) \<in> set directions. dr \<noteq> 0 \<or> dc \<noteq> 0"
    by (simp add: directions_def)
  from any_direction_wf [OF assms(1) this] show ?thesis
    by (simp add: is_winning_move_def np_get_wf [OF assms] four_in_line_def)
qed

lemma drop_piece_success:
  assumes wf: "well_formed s" and go: "\<not> game_over s"
    and col: "0 \<le> col" "col < COLS"
    and row: "next_row s col = Some row" "0 \<le> row"
  shows "drop_piece s col = Some (outcome s row col, Inr (row, col))"
proof -
  from wf col row have "row < ROWS"
    by (auto simp: well_formed_def)
  with col row have inb: "in_bounds row col"
    by (simp add: in_bounds_def)
  from wf have b: "wf_board (board s)"
    by (simp add: well_formed_def)
  from wf have "- (2 ^ 63) \<le> current_player s" "current_player s < 2 ^ 63"
    by (auto simp: well_formed_def PLAYER1_def PLAYER2_def)
  then have set: "np_set (board s) row col (current_player s) =
      Inr (place (board s) row col (current_player s))"
    by (rule np_set_wf [OF b inb])
  let ?s3 = "placed s row col"
  have b3: "wf_board (board ?s3)"
    by (simp add: placed_def wf_board_place [OF b])
  have "cell (board ?s3) row col = current_player s"
    by (simp add: placed_def cell_place [OF b inb inb])
  with is_winning_move_wf [OF b3 inb]
  have win: "is_winning_move ?s3 row col =
      Some (Inr (four_in_line (board ?s3) row col (current_player s)))"
    by simp
  have s3: "s\<lparr>board := place (board s) row col (current_player s),
      next_row := (next_row s)(col \<mapsto> row - 1), moves_made := moves_made s + 1\<rparr> = ?s3"
    by (simp add: placed_def)
  have cp: "current_player ?s3 = current_player s"
    by (simp add: placed_def)
  show ?thesis
    using go col row
    by (simp add: drop_piece_def set Let_def s3 win cp outcome_def)
qed

lemma next_row_reset:
  "next_row (reset s) c = (if 0 \<le> c \<and> c < COLS then Some (ROWS - 1) else None)"
proof -
  have "map_of (map (\<lambda>c. (c, v)) xs) c = (if c \<in> set xs then Some v else None)"
    for xs :: "int list" and v :: int
    by (induction xs) auto
  then show ?thesis by (auto simp: reset_def)
qed

lemma walk_error_aux:
  assumes "walk b r c dr dc piece count = Some y"
  shows "\<forall>e. y = Inl e \<longrightarrow> e = IndexError"
proof (rule walk.raw_induct
    [where P = "\<lambda>b r c dr dc piece count y. \<forall>e. y = Inl e \<longrightarrow> e = IndexError", OF _ assms])
  fix w b r c dr dc piece count and y :: "error + int"
  assume ih: "\<And>b r c dr dc piece count y.
      w b r c dr dc piece count = Some y \<Longrightarrow> \<forall>e. y = Inl e \<longrightarrow> e = IndexError"
    and body: "(if 0 \<le> r \<and> r < ROWS \<and> 0 \<le> c \<and> c < COLS then
        (case np_get b r c of
           Inl e \<Rightarrow> Some (Inl e)
         | Inr v \<Rightarrow>
             if v = piece then w b (r + dr) (c + dc) dr dc piece (count + 1)
             else Some (Inr count))
      else Some (Inr count)) = Some y"
  show "\<forall>e. y = Inl e \<longrightarrow> e = IndexError"
  proof (cases "np_get b r c")
    case (Inl e)
    then have "e = IndexError"
      by (auto simp: np_get_def split: option.splits)
    with Inl body show ?thesis
      by (auto split: if_splits)
  next
    case (Inr v)
    with body ih show ?thesis
      by (auto split: if_splits)
  qed
qed

lemma walk_error: "walk b r c dr dc piece count = Some (Inl e) \<Longrightarrow> e = IndexError"
  using walk_error_aux by blast

section \<open>Moves from a state of an engine\<close>

lemma well_formed_reset: "well_formed (reset s)"
proof -
  have "wf_board (board (reset s))"
    by (simp add: reset_def wf_board_def)
  moreover have "current_player (reset s) = PLAYER1"
    by (simp add: reset_def)
  ultimately show ?thesis
    by (simp add: well_formed_def next_row_reset ROWS_def)
qed

lemma drop_piece_wf:
  assumes "well_formed s"
  shows "drop_piece s col =
     (if game_over s then Some (s, Inl InvalidState)
      else if \<not> (0 \<le> col \<and> col < COLS) then Some (s, Inl InvalidColumn)
      else (case next_row s col of
              None \<Rightarrow> Some (s, Inl (KeyError col))
            | Some row \<Rightarrow>
                if row < 0 then Some (s, Inl ColumnFull)
                else Some (outcome s row col, Inr (row, col))))"
proof (cases "\<not> game_over s \<and> 0 \<le> col \<and> col < COLS \<and> (\<exists>row. next_row s col = Some row \<and> 0 \<le> row)")
  case True
  then obtain row where "next_row s col = Some row" "0 \<le> row" by blast
  with True drop_piece_success [OF assms, of col row] show ?thesis by simp
next
  case False
  then show ?thesis
    by (auto simp: drop_piece_def InvalidState_def InvalidColumn_def ColumnFull_def
        split: option.splits)
qed

lemma count_consecutive_error:
  "count_consecutive s row col dr dc piece = Some (Inl e) \<Longrightarrow> e = IndexError"
  by (auto simp: count_consecutive_def split: option.splits sum.splits dest: walk_error)

lemma any_direction_error:
  "any_direction s row col piece ds = Some (Inl e) \<Longrightarrow> e = IndexError"
proof (induction ds)
  case Nil
  then show ?case by simp
next
  case (Cons d ds)
  obtain dr dc where d: "d = (dr, dc)" by (cases d)
  from Cons show ?case
    by (auto simp: d split: option.splits sum.splits if_splits dest: count_consecutive_error)
qed

lemma is_winning_move_error:
  "is_winning_move s row col = Some (Inl e) \<Longrightarrow> e = IndexError"
  by (auto simp: is_winning_move_def np_get_def split: option.splits sum.splits
      dest: any_direction_error)

lemma errors_distinct:
  "InvalidState \<noteq> InvalidColumn" "InvalidState \<noteq> ColumnFull" "InvalidColumn \<noteq> ColumnFull"
  "InvalidState \<noteq> IndexError" "InvalidColumn \<noteq> IndexError" "ColumnFull \<noteq> IndexError"
  by (simp_all add: InvalidState_def InvalidColumn_def ColumnFull_def)

lemma drop_piece_error_kinds:
  assumes "drop_piece s col = Some (s', Inl e)"
    and "e = InvalidState \<or> e = InvalidColumn \<or> e = ColumnFull"
  shows "s' = s"
  using assms errors_distinct
  by (auto simp: drop_piece_def Let_def split: if_splits option.splits sum.splits
      dest!: is_winning_move_error)

lemma outcome_fields:
  "board (outcome s row col) = place (board s) row col (current_player s)"
  "next_row (outcome s row col) = (next_row s)(col \<mapsto> row - 1)"
  "moves_made (outcome s row col) = moves_made s + 1"
  by (simp_all add: outcome_def placed_def Let_def)

lemma drop_piece_success_cases:
  assumes "well_formed s" "drop_piece s col = Some (s', Inr (row, c))"
  shows "\<not> game_over s \<and> 0 \<le> col \<and> col < COLS \<and> c = col \<and> next_row s col = Some row \<and>
         0 \<le> row \<and> row < ROWS \<and> s' = outcome s row col"
proof -
  from assms(2) have "\<not> game_over s \<and> 0 \<le> col \<and> col < COLS \<and> c = col \<and>
      next_row s col = Some row \<and> 0 \<le> row \<and> s' = outcome s row col"
    unfolding drop_piece_wf [OF assms(1)]
    by (auto split: if_splits option.splits)
  moreover from this assms(1) have "row < ROWS"
    by (auto simp: well_formed_def)
  ultimately show ?thesis by simp
qed

lemma filter_update_length:
  "i < length xs \<Longrightarrow> \<not> P (xs ! i) \<Longrightarrow> P v \<Longrightarrow>
   length (filter P (xs[i := v])) = Suc (length (filter P xs))"
proof (induction xs arbitrary: i)
  case Nil
  then show ?case by simp
next
  case (Cons x xs)
  then show ?case by (cases i) auto
qed

lemma concat_update_length:
  "i < length xss \<Longrightarrow> length (filter P ys) = Suc (length (filter P (xss ! i))) \<Longrightarrow>
   length (filter P (concat (xss[i := ys]))) = Suc (length (filter P (concat xss)))"
proof (induction xss arbitrary: i)
  case Nil
  then show ?case by simp
next
  case (Cons xs xss)
  then show ?case by (cases i) auto
qed

lemma count_nonempty_place:
  assumes "wf_board b" "in_bounds r c" "cell b r c = EMPTY" "v \<noteq> EMPTY"
  shows "count_nonempty (place b r c v) = Suc (count_nonempty b)"
proof -
  from assms have r: "nat r < length b"
    by (simp add: wf_board_def in_bounds_def)
  from assms have c: "nat c < length (b ! nat r)"
    by (simp add: wf_board_row in_bounds_def)
  from assms have e: "\<not> (b ! nat r ! nat c \<noteq> EMPTY)"
    by (simp add: cell_def)
  have "length (filter (\<lambda>v. v \<noteq> EMPTY) ((b ! nat r)[nat c := v])) =
      Suc (length (filter (\<lambda>v. v \<noteq> EMPTY) (b ! nat r)))"
    using c e assms(4) by (rule filter_update_length)
  with r show ?thesis
    unfolding count_nonempty_def place_def by (rule concat_update_length)
qed

lemma reset_new_game: "reset s = new_game"
  by (simp add: new_game_def reset_def)

lemma cell_reset:
  assumes "in_bounds r c"
  shows "cell (board (reset s)) r c = EMPTY"
proof -
  from assms have "nat r < nat ROWS" "nat c < nat COLS"
    by (simp_all add: in_bounds_def)
  then show ?thesis
    by (simp add: reset_def cell_def EMPTY_def)
qed

lemma count_nonempty_reset: "count_nonempty (board (reset s)) = 0"
proof -
  have "\<forall>v \<in> set (concat (replicate n (replicate m (0::int)))). v = 0" for n m
    by auto
  then have "filter (\<lambda>v. v \<noteq> 0) (concat (replicate n (replicate m (0::int)))) = []" for n m
    by (simp only: filter_empty_conv) blast
  then show ?thesis
    by (simp add: count_nonempty_def reset_def EMPTY_def)
qed

lemma consistent_reset: "consistent (reset s) []"
proof -
  have wf: "wf_board (board (reset s))"
    by (simp add: reset_def wf_board_def)
  have col: "column_filled (reset s) c 0" if "0 \<le> c \<and> c < COLS" for c
    using that by (simp add: column_filled_def next_row_reset cell_reset in_bounds_def ROWS_def)
  have cells: "cell (board (reset s)) r c = EMPTY" if "in_bounds r c" for r c
    using that by (rule cell_reset)
  have rest: "current_player (reset s) = PLAYER1" "moves_made (reset s) = 0"
    "winner (reset s) = None"
    by (simp_all add: reset_def)
  show ?thesis
    unfolding consistent_def
    using wf col cells rest count_nonempty_reset [of s] by simp
qed

lemma consistent_well_formed:
  assumes "consistent s h"
  shows "well_formed s"
proof -
  have "\<exists>r. next_row s c = Some r \<and> - 1 \<le> r \<and> r < ROWS" if "0 \<le> c \<and> c < COLS" for c
  proof -
    from assms that have "column_filled s c (count_list h c)"
      by (simp add: consistent_def)
    then show ?thesis
      by (auto simp: column_filled_def)
  qed
  with assms show ?thesis
    by (simp add: well_formed_def consistent_def)
qed

lemma outcome_player:
  "current_player s = PLAYER1 \<or> current_player s = PLAYER2 \<Longrightarrow>
   current_player (outcome s row col) = PLAYER1 \<or> current_player (outcome s row col) = PLAYER2"
  by (auto simp: outcome_def placed_def Let_def)

lemma outcome_winner:
  "\<not> game_over s \<Longrightarrow> winner s = None \<Longrightarrow> \<not> game_over (outcome s row col) \<Longrightarrow>
   winner (outcome s row col) = None"
  by (auto simp: outcome_def placed_def Let_def split: if_splits)

lemma consistent_outcome:
  assumes inv: "consistent s h" and go: "\<not> game_over s"
    and col: "0 \<le> col" "col < COLS"
    and row: "next_row s col = Some row" "0 \<le> row"
  shows "consistent (outcome s row col) (h @ [col])"
proof -
  let ?k = "count_list h col"
  let ?p = "current_player s"
  let ?s' = "outcome s row col"
  from inv have b: "wf_board (board s)"
    by (simp add: consistent_def)
  from inv col have filled: "column_filled s col ?k"
    by (simp add: consistent_def)
  with row have k: "row = ROWS - 1 - int ?k"
    by (simp add: column_filled_def)
  with row have rowlt: "row < ROWS" by simp
  with col row have inb: "in_bounds row col"
    by (simp add: in_bounds_def)
  from filled row rowlt
  have "(cell (board s) row col \<noteq> EMPTY) = (ROWS - int ?k \<le> row)"
    by (simp add: column_filled_def)
  with k have empty: "cell (board s) row col = EMPTY"
    by simp
  from inv have p: "?p = PLAYER1 \<or> ?p = PLAYER2"
    by (simp add: consistent_def)
  then have pne: "?p \<noteq> EMPTY"
    by (auto simp: PLAYER1_def PLAYER2_def EMPTY_def)
  have cells: "cell (board ?s') r c = (if r = row \<and> c = col then ?p else cell (board s) r c)"
    if "in_bounds r c" for r c
    by (simp add: outcome_fields cell_place [OF b inb that])
  have 1: "wf_board (board ?s')"
    by (simp add: outcome_fields wf_board_place [OF b])
  have 2: "column_filled ?s' c (count_list (h @ [col]) c)" if c: "0 \<le> c \<and> c < COLS" for c
  proof (cases "c = col")
    case True
    have "(cell (board ?s') r col \<noteq> EMPTY) = (ROWS - int (Suc ?k) \<le> r)"
      if r: "0 \<le> r \<and> r < ROWS" for r
    proof -
      from r col have "in_bounds r col" by (simp add: in_bounds_def)
      from cells [OF this] filled r k pne show ?thesis
        by (auto simp: column_filled_def)
    qed
    with True k row show ?thesis
      by (simp add: column_filled_def outcome_fields)
  next
    case False
    from inv c have old: "column_filled s c (count_list h c)"
      by (simp add: consistent_def)
    have "cell (board ?s') r c = cell (board s) r c" if r: "0 \<le> r \<and> r < ROWS" for r
    proof -
      from r c have "in_bounds r c" by (simp add: in_bounds_def)
      from cells [OF this] False show ?thesis by simp
    qed
    with False old show ?thesis
      by (simp add: column_filled_def outcome_fields)
  qed
  have 3: "current_player ?s' = PLAYER1 \<or> current_player ?s' = PLAYER2"
    using p by (rule outcome_player)
  have 4: "cell (board ?s') r c = EMPTY \<or> cell (board ?s') r c = PLAYER1 \<or>
      cell (board ?s') r c = PLAYER2" if "in_bounds r c" for r c
    using inv p that cells [OF that] by (auto simp: consistent_def)
  have 5: "moves_made ?s' = int (length (h @ [col]))"
    using inv by (simp add: outcome_fields consistent_def)
  have 6: "moves_made ?s' = int (count_nonempty (board ?s'))"
    using inv by (simp add: outcome_fields consistent_def
        count_nonempty_place [OF b inb empty pne])
  have 7: "\<not> game_over ?s' \<longrightarrow> winner ?s' = None"
    using inv go by (auto simp: consistent_def intro: outcome_winner)
  from 1 2 3 4 5 6 7 show ?thesis
    unfolding consistent_def by blast
qed

lemma consistent_step:
  assumes "consistent s h" "drop_piece s col = Some (s', Inr rc)"
  shows "consistent s' (h @ [col])"
proof -
  obtain row c where rc: "rc = (row, c)" by (cases rc)
  from drop_piece_success_cases [OF consistent_well_formed [OF assms(1)] assms(2) [unfolded rc]]
  have "\<not> game_over s" "0 \<le> col" "col < COLS" "next_row s col = Some row" "0 \<le> row"
    "s' = outcome s row col"
    by simp_all
  with consistent_outcome [OF assms(1)] show ?thesis by simp
qed

lemma consistent_play:
  "consistent s h \<Longrightarrow> play s cols = Some s' \<Longrightarrow> consistent s' (h @ cols)"
proof (induction cols arbitrary: s h)
  case Nil
  then show ?case by simp
next
  case (Cons col cols)
  from Cons.prems(2) obtain s1 rc where step: "drop_piece s col = Some (s1, Inr rc)"
    and rest: "play s1 cols = Some s'"
    by (auto split: option.splits sum.splits prod.splits)
  from consistent_step [OF Cons.prems(1) step] have "consistent s1 (h @ [col])" .
  from Cons.IH [OF this rest] show ?case by simp
qed

lemma consistent_reachable:
  "play (reset s0) cols = Some s \<Longrightarrow> consistent s cols"
  using consistent_play [OF consistent_reset, of s0 cols s] by simp

section \<open>reset\<close>

text \<open>
  Claim C9: \<open>reset\<close> yields the initial state whatever the state it is called in: an all-EMPTY
  board, \<open>ROWS - 1\<close> as the next free row of each of the columns \<open>0 .. COLS - 1\<close> (and no other
  key), PLAYER1 to move, no move made, the game not over, no winner. So it yields the same
  state from any two states, and calling it again changes nothing.
\<close>

theorem reset_initial_state:
  "board (reset s) = replicate (nat ROWS) (replicate (nat COLS) EMPTY) \<and>
   (\<forall>c. next_row (reset s) c = (if 0 \<le> c \<and> c < COLS then Some (ROWS - 1) else None)) \<and>
   current_player (reset s) = PLAYER1 \<and>
   moves_made (reset s) = 0 \<and>
   game_over (reset s) = False \<and>
   winner (reset s) = None \<and>
   reset s = reset s' \<and>
   reset (reset s) = reset s"
  by (simp add: next_row_reset) (simp add: reset_def EMPTY_def)

theorem reset_initial_state_witness:
  "reset (new_game\<lparr>board := [[1, 2], [2, 1]], next_row := Map.empty, current_player := 2,
      moves_made := 4, game_over := True, winner := Some 2\<rparr>) = new_game \<and>
   reset new_game = new_game \<and>
   board new_game = replicate 6 (replicate 7 0) \<and>
   next_row new_game 0 = Some 5 \<and> next_row new_game 6 = Some 5 \<and>
   next_row new_game 7 = None \<and> current_player new_game = 1 \<and> moves_made new_game = 0 \<and>
   \<not> game_over new_game \<and> winner new_game = None"
  unfolding new_game_def
  using reset_initial_state
    [of "\<lparr>board = [], next_row = Map.empty, current_player = 0, moves_made = 0,
            game_over = False, winner = None\<rparr>"]
    reset_initial_state
    [of "reset \<lparr>board = [], next_row = Map.empty, current_player = 0, moves_made = 0,
            game_over = False, winner = None\<rparr>\<lparr>board := [[1, 2], [2, 1]],
          next_row := Map.empty, current_player := 2,
          moves_made := 4, game_over := True, winner := Some 2\<rparr>"
        "\<lparr>board = [], next_row = Map.empty, current_player = 0, moves_made = 0,
            game_over = False, winner = None\<rparr>"]
  by (simp add: ROWS_def COLS_def EMPTY_def PLAYER1_def)

section \<open>A successful move\<close>

text \<open>
  Claim C1: in a state of an engine where the game is not over, for a column \<open>col\<close> between
  0 and \<open>COLS - 1\<close> whose next free row \<open>row\<close> is not negative, \<open>drop_piece\<close> returns \<open>(row, col)\<close>,
  the cell \<open>(row, col)\<close> then holds the player who moved and no other cell has changed, the
  next free row of \<open>col\<close> is one less (the other columns keep theirs), and one more move
  has been made.
\<close>

theorem drop_piece_places_disc:
  assumes "well_formed s" "\<not> game_over s" "0 \<le> col" "col < COLS"
    and "next_row s col = Some row" "0 \<le> row"
  shows "\<exists>s'. drop_piece s col = Some (s', Inr (row, col)) \<and>
           cell (board s') row col = current_player s \<and>
           (\<forall>r c. in_bounds r c \<and> (r, c) \<noteq> (row, col) \<longrightarrow>
                  cell (board s') r c = cell (board s) r c) \<and>
           next_row s' = (next_row s)(col \<mapsto> row - 1) \<and>
           moves_made s' = moves_made s + 1"
proof -
  from assms have "row < ROWS"
    by (auto simp: well_formed_def)
  with assms have inb: "in_bounds row col"
    by (simp add: in_bounds_def)
  from assms have b: "wf_board (board s)"
    by (simp add: well_formed_def)
  have brd: "board (outcome s row col) = place (board s) row col (current_player s)"
    and nxt: "next_row (outcome s row col) = (next_row s)(col \<mapsto> row - 1)"
    and mvs: "moves_made (outcome s row col) = moves_made s + 1"
    by (simp_all add: outcome_def placed_def Let_def)
  have "cell (board (outcome s row col)) row col = current_player s"
    by (simp add: brd cell_place [OF b inb inb])
  moreover have "\<forall>r c. in_bounds r c \<and> (r, c) \<noteq> (row, col) \<longrightarrow>
      cell (board (outcome s row col)) r c = cell (board s) r c"
    by (auto simp: brd cell_place [OF b inb])
  ultimately show ?thesis
    using drop_piece_success [OF assms] nxt mvs by blast
qed

theorem drop_piece_places_disc_witness:
  "well_formed new_game \<and> \<not> game_over new_game \<and> (0::int) \<le> 3 \<and> 3 < COLS \<and>
   next_row new_game 3 = Some 5 \<and>
   (\<exists>s'. drop_piece new_game 3 = Some (s', Inr (5, 3)) \<and>
         cell (board s') 5 3 = 1 \<and> cell (board s') 5 2 = 0 \<and> cell (board s') 4 3 = 0 \<and>
         next_row s' 3 = Some 4 \<and> next_row s' 2 = Some 5 \<and> moves_made s' = 1)"
proof -
  have wf: "well_formed new_game"
    unfolding new_game_def by (rule well_formed_reset)
  have go: "\<not> game_over new_game"
    by (simp add: new_game_def reset_def)
  have col: "(0::int) \<le> 3" "3 < COLS"
    by (simp_all add: COLS_def)
  have row: "next_row new_game 3 = Some 5" "(0::int) \<le> 5"
    by (simp_all add: new_game_def next_row_reset ROWS_def COLS_def)
  have old: "cell (board new_game) 5 2 = 0" "cell (board new_game) 4 3 = 0"
    "moves_made new_game = 0" "current_player new_game = 1"
    by (simp_all add: new_game_def reset_def cell_def ROWS_def COLS_def PLAYER1_def)
  have old_row: "next_row new_game 2 = Some 5"
    by (simp add: new_game_def next_row_reset ROWS_def COLS_def)
  have inb: "in_bounds 5 2" "in_bounds 4 3"
    by (simp_all add: in_bounds_def ROWS_def COLS_def)
  from drop_piece_places_disc [OF wf go col row] obtain s' where
    "drop_piece new_game 3 = Some (s', Inr (5, 3))"
    "cell (board s') 5 3 = current_player new_game"
    "\<forall>r c. in_bounds r c \<and> (r, c) \<noteq> (5, 3) \<longrightarrow> cell (board s') r c = cell (board new_game) r c"
    "next_row s' = (next_row new_game)(3 \<mapsto> 5 - 1)"
    "moves_made s' = moves_made new_game + 1"
    by blast
  with old old_row inb have "drop_piece new_game 3 = Some (s', Inr (5, 3)) \<and>
         cell (board s') 5 3 = 1 \<and> cell (board s') 5 2 = 0 \<and> cell (board s') 4 3 = 0 \<and>
         next_row s' 3 = Some 4 \<and> next_row s' 2 = Some 5 \<and> moves_made s' = 1"
    by simp
  then show ?thesis using wf go col row by blast
qed

section \<open>Win detection\<close>

text \<open>
  Claim C2: on every board and at every cell \<open>(row, col)\<close> of it, the win check returns
  True exactly when, along at least one of the four axes \<open>(0, 1)\<close>, \<open>(1, 0)\<close>, \<open>(1, 1)\<close>
  and \<open>(1, -1)\<close>, the line through the cell is 4 or more long: the cell itself, counted as 1,
  and the cells holding the same piece met in the direction and in the opposite direction
  while in bounds.
\<close>

theorem win_check_counts_line:
  assumes "wf_board (board s)" "in_bounds row col"
  shows "is_winning_move s row col =
           Some (Inr (\<exists>(dr, dc) \<in> set [(0, 1), (1, 0), (1, 1), (1, - 1)].
             line_length (board s) row col dr dc (cell (board s) row col) \<ge> 4))"
  using is_winning_move_wf [OF assms]
  by (simp add: four_in_line_def directions_def CONNECT_def)

theorem win_check_counts_line_witness:
  "wf_board example_board \<and> in_bounds 3 2 \<and> in_bounds 3 3 \<and>
   is_winning_move (new_game\<lparr>board := example_board\<rparr>) 3 2 = Some (Inr True) \<and>
   line_length example_board 3 2 1 (- 1) 1 = 4 \<and>
   is_winning_move (new_game\<lparr>board := example_board\<rparr>) 3 3 = Some (Inr False) \<and>
   line_length example_board 3 3 0 1 2 = 1 \<and> line_length example_board 3 3 1 0 2 = 3 \<and>
   line_length example_board 3 3 1 1 2 = 1 \<and> line_length example_board 3 3 1 (- 1) 2 = 3"
proof -
  have wf: "wf_board (board (new_game\<lparr>board := example_board\<rparr>))"
    by (simp add: wf_board_def example_board_def ROWS_def COLS_def)
  have inb: "in_bounds 3 2" "in_bounds 3 3"
    by (simp_all add: in_bounds_def ROWS_def COLS_def)
  have ll: "line_length example_board 3 2 1 (- 1) 1 = 4"
    "line_length example_board 3 2 0 1 1 = 1"
    "line_length example_board 3 2 1 0 1 = 1"
    "line_length example_board 3 2 1 1 1 = 1"
    "line_length example_board 3 3 0 1 2 = 1" "line_length example_board 3 3 1 0 2 = 3"
    "line_length example_board 3 3 1 1 2 = 1" "line_length example_board 3 3 1 (- 1) 2 = 3"
    by code_simp+
  have c: "cell example_board 3 2 = 1" "cell example_board 3 3 = 2"
    by code_simp+
  show ?thesis
    using win_check_counts_line [OF wf inb(1)] win_check_counts_line [OF wf inb(2)] wf inb
    by (simp add: ll c)
qed

section \<open>Example games\<close>

lemma after_play: "play new_game cols \<noteq> None \<Longrightarrow> play (reset s0) cols = Some (after cols)"
  by (auto simp: after_def reset_new_game)

lemma after_consistent: "play new_game cols \<noteq> None \<Longrightarrow> consistent (after cols) cols"
  using after_play [of cols new_game] by (rule consistent_reachable)

lemma after_well_formed: "play new_game cols \<noteq> None \<Longrightarrow> well_formed (after cols)"
  using after_consistent by (rule consistent_well_formed)

lemma games_succeed:
  "play new_game column_game \<noteq> None"
  "play new_game diagonal_game \<noteq> None"
  "play new_game full_column_game \<noteq> None"
  "play new_game draw_prefix \<noteq> None"
  "play new_game draw_game \<noteq> None"
  by code_simp+

lemma column_game_facts:
  "game_over (after column_game)" "winner (after column_game) = Some 1"
  by code_simp+

lemma diagonal_game_facts:
  "\<not> game_over (after diagonal_game)" "next_row (after diagonal_game) 3 = Some 2"
  "current_player (after diagonal_game) = 1" "moves_made (after diagonal_game) = 10"
  "count_nonempty (board (after diagonal_game)) = 10"
  "column_discs (board (after diagonal_game)) 3 = [3, 4, 5]"
  "count_list diagonal_game 3 = 3"
  "four_in_line (place (board (after diagonal_game)) 2 3 1) 2 3 1"
  "cell (board (after diagonal_game)) 2 3 = 0"
  "cell (board (after diagonal_game)) 5 2 = 1"
  by code_simp+

lemma row_game_facts:
  "play new_game row_game \<noteq> None"
  "\<not> game_over (after row_game)" "next_row (after row_game) 3 = Some 5"
  "current_player (after row_game) = 1"
  "line_length (place (board (after row_game)) 5 3 1) 5 3 0 1 1 = 4"
  by code_simp+

lemma diagonal_line:
  "line_length (place (board (after diagonal_game)) 2 3 1) 2 3 1 (- 1) 1 = 4"
  by code_simp

lemma draw_prefix_lines:
  "line_length (place (board (after draw_prefix)) 0 6 2) 0 6 0 1 2 = 1"
  "line_length (place (board (after draw_prefix)) 0 6 2) 0 6 1 0 2 = 1"
  "line_length (place (board (after draw_prefix)) 0 6 2) 0 6 1 1 2 = 1"
  "line_length (place (board (after draw_prefix)) 0 6 2) 0 6 1 (- 1) 2 = 2"
  by code_simp+

lemma full_column_game_facts:
  "\<not> game_over (after full_column_game)" "next_row (after full_column_game) 0 = Some (- 1)"
  by code_simp+

lemma draw_prefix_facts:
  "\<not> game_over (after draw_prefix)" "next_row (after draw_prefix) 6 = Some 0"
  "current_player (after draw_prefix) = 2" "moves_made (after draw_prefix) = 41"
  "\<not> four_in_line (place (board (after draw_prefix)) 0 6 2) 0 6 2"
  "length draw_prefix = 41"
  by code_simp+

lemma draw_game_facts:
  "game_over (after draw_game)" "winner (after draw_game) = None"
  "count_nonempty (board (after draw_game)) = 42" "length draw_game = 42"
  "moves_made (after draw_game) = 42"
  by code_simp+

section \<open>A winning move\<close>

text \<open>
  Claim C3: when a call of \<open>drop_piece\<close> succeeds and the disc it placed at \<open>(row, c)\<close> lies,
  along the row \<open>(0, 1)\<close>, the column \<open>(1, 0)\<close> or one of the diagonals \<open>(1, 1)\<close> and \<open>(1, -1)\<close>,
  on a line of 4 or more discs of the player who moved, the call leaves the game over, with
  that player as the winner and still as the current player.
\<close>

theorem winning_drop_ends_game:
  assumes "well_formed s" "drop_piece s col = Some (s', Inr (row, c))"
    and "\<exists>(dr, dc) \<in> set [(0, 1), (1, 0), (1, 1), (1, - 1)].
           line_length (board s') row c dr dc (current_player s) \<ge> 4"
  shows "game_over s' \<and> winner s' = Some (current_player s) \<and>
         current_player s' = current_player s"
proof -
  from drop_piece_success_cases [OF assms(1,2)]
  have c: "c = col" and s': "s' = outcome s row col" by simp_all
  from assms(3) have "four_in_line (board s') row c (current_player s)"
    by (simp add: four_in_line_def directions_def CONNECT_def)
  then have "four_in_line (board (placed s row col)) row col (current_player s)"
    by (simp add: c s' outcome_fields placed_def)
  then show ?thesis
    by (simp add: s' outcome_def Let_def placed_def)
qed

theorem winning_drop_ends_game_witness:
  "well_formed (after diagonal_game) \<and>
   drop_piece (after diagonal_game) 3 = Some (outcome (after diagonal_game) 2 3, Inr (2, 3)) \<and>
   line_length (board (outcome (after diagonal_game) 2 3)) 2 3 1 (- 1)
     (current_player (after diagonal_game)) = 4 \<and>
   game_over (outcome (after diagonal_game) 2 3) \<and>
   winner (outcome (after diagonal_game) 2 3) = Some 1 \<and>
   current_player (outcome (after diagonal_game) 2 3) = 1 \<and>
   well_formed (after row_game) \<and>
   drop_piece (after row_game) 3 = Some (outcome (after row_game) 5 3, Inr (5, 3)) \<and>
   line_length (board (outcome (after row_game) 5 3)) 5 3 0 1
     (current_player (after row_game)) = 4 \<and>
   game_over (outcome (after row_game) 5 3) \<and>
   winner (outcome (after row_game) 5 3) = Some 1 \<and>
   current_player (outcome (after row_game) 5 3) = 1"
proof -
  let ?s = "after diagonal_game"
  let ?t = "after row_game"
  have wf: "well_formed ?s"
    by (rule after_well_formed [OF games_succeed(2)])
  have wf': "well_formed ?t"
    by (rule after_well_formed [OF row_game_facts(1)])
  have col: "(0::int) \<le> 3" "3 < COLS" "(0::int) \<le> 2" "(0::int) \<le> 5"
    by (simp_all add: COLS_def)
  from wf diagonal_game_facts(1,2) col
  have d: "drop_piece ?s 3 = Some (outcome ?s 2 3, Inr (2, 3))"
    by (intro drop_piece_success)
  from wf' row_game_facts(2,3) col
  have d': "drop_piece ?t 3 = Some (outcome ?t 5 3, Inr (5, 3))"
    by (intro drop_piece_success)
  have l: "line_length (board (outcome ?s 2 3)) 2 3 1 (- 1) (current_player ?s) = 4"
    by (simp add: outcome_fields diagonal_game_facts diagonal_line)
  have l': "line_length (board (outcome ?t 5 3)) 5 3 0 1 (current_player ?t) = 4"
    by (simp add: outcome_fields row_game_facts)
  from l have f: "\<exists>(dr, dc) \<in> set [(0, 1), (1, 0), (1, 1), (1, - 1)].
      line_length (board (outcome ?s 2 3)) 2 3 dr dc (current_player ?s) \<ge> 4"
    by simp
  from l' have f': "\<exists>(dr, dc) \<in> set [(0, 1), (1, 0), (1, 1), (1, - 1)].
      line_length (board (outcome ?t 5 3)) 5 3 dr dc (current_player ?t) \<ge> 4"
    by simp
  from winning_drop_ends_game [OF wf d f] winning_drop_ends_game [OF wf' d' f']
    wf d l wf' d' l'
  show ?thesis
    by (simp add: diagonal_game_facts row_game_facts)
qed

section \<open>The failures of a move\<close>

text \<open>
  Claim C4, as stated, has the three failures distinguished as three kinds of error. The
  engine raises two: a column out of range and a full column both raise a ValueError, as
  the docstring of \<open>drop_piece\<close> says, and only the message tells them apart.
\<close>

theorem three_error_kinds_counterexample:
  "drop_piece new_game 7 = Some (new_game, Inl InvalidColumn) \<and>
   drop_piece (after full_column_game) 0 = Some (after full_column_game, Inl ColumnFull) \<and>
   exception_type InvalidColumn = exception_type ColumnFull"
proof -
  have "drop_piece new_game 7 = Some (new_game, Inl InvalidColumn)"
    by (simp add: drop_piece_def InvalidColumn_def COLS_def new_game_def reset_def)
  moreover have "drop_piece (after full_column_game) 0 =
      Some (after full_column_game, Inl ColumnFull)"
    using full_column_game_facts by (simp add: drop_piece_def ColumnFull_def COLS_def)
  moreover have "exception_type InvalidColumn = exception_type ColumnFull"
    by (simp add: InvalidColumn_def ColumnFull_def)
  ultimately show ?thesis by simp
qed

text \<open>
  Claim C4, amended: in a state of an engine \<open>drop_piece\<close> fails with InvalidState, a
  RuntimeError, when the game is over; otherwise with InvalidColumn, a ValueError, when
  \<open>col\<close> is not between 0 and \<open>COLS - 1\<close>; otherwise with ColumnFull, a ValueError with
  another message, when the next free row of the column is negative; and in every other
  case it succeeds, returning that row and the column.
\<close>

theorem drop_piece_failure_conditions:
  assumes "well_formed s"
  shows "(game_over s \<longrightarrow> drop_piece s col = Some (s, Inl InvalidState)) \<and>
         (\<not> game_over s \<and> (col < 0 \<or> COLS \<le> col) \<longrightarrow>
            drop_piece s col = Some (s, Inl InvalidColumn)) \<and>
         (\<not> game_over s \<and> 0 \<le> col \<and> col < COLS \<longrightarrow>
            (\<exists>row. next_row s col = Some row \<and>
               (row < 0 \<longrightarrow> drop_piece s col = Some (s, Inl ColumnFull)) \<and>
               (0 \<le> row \<longrightarrow> (\<exists>s'. drop_piece s col = Some (s', Inr (row, col)))))) \<and>
         InvalidState = RuntimeError ''The game is already finished.'' \<and>
         InvalidColumn = ValueError ''Column must be between 0 and 6.'' \<and>
         ColumnFull = ValueError ''That column is full.'' \<and>
         exception_type InvalidState = ''RuntimeError'' \<and>
         exception_type InvalidColumn = ''ValueError'' \<and>
         exception_type ColumnFull = ''ValueError''"
proof -
  have "\<exists>row. next_row s col = Some row" if "0 \<le> col \<and> col < COLS"
    using assms that by (auto simp: well_formed_def)
  then have "(game_over s \<longrightarrow> drop_piece s col = Some (s, Inl InvalidState)) \<and>
         (\<not> game_over s \<and> (col < 0 \<or> COLS \<le> col) \<longrightarrow>
            drop_piece s col = Some (s, Inl InvalidColumn)) \<and>
         (\<not> game_over s \<and> 0 \<le> col \<and> col < COLS \<longrightarrow>
            (\<exists>row. next_row s col = Some row \<and>
               (row < 0 \<longrightarrow> drop_piece s col = Some (s, Inl ColumnFull)) \<and>
               (0 \<le> row \<longrightarrow> (\<exists>s'. drop_piece s col = Some (s', Inr (row, col))))))"
    unfolding drop_piece_wf [OF assms] by auto
  moreover have "InvalidState = RuntimeError ''The game is already finished.''"
    "InvalidColumn = ValueError ''Column must be between 0 and 6.''"
    "ColumnFull = ValueError ''That column is full.''"
    by (simp_all only: InvalidState_def InvalidColumn_def ColumnFull_def)
  moreover have "exception_type InvalidState = ''RuntimeError''"
    "exception_type InvalidColumn = ''ValueError''"
    "exception_type ColumnFull = ''ValueError''"
    by (simp_all add: InvalidState_def InvalidColumn_def ColumnFull_def)
  ultimately show ?thesis by blast
qed

theorem drop_piece_failure_conditions_witness:
  "well_formed (after column_game) \<and> game_over (after column_game) \<and>
   drop_piece (after column_game) 3 = Some (after column_game, Inl InvalidState) \<and>
   well_formed new_game \<and> \<not> game_over new_game \<and>
   drop_piece new_game 7 = Some (new_game, Inl InvalidColumn) \<and>
   drop_piece new_game (- 1) = Some (new_game, Inl InvalidColumn) \<and>
   well_formed (after full_column_game) \<and> \<not> game_over (after full_column_game) \<and>
   next_row (after full_column_game) 0 = Some (- 1) \<and>
   drop_piece (after full_column_game) 0 = Some (after full_column_game, Inl ColumnFull) \<and>
   next_row new_game 3 = Some 5 \<and>
   (\<exists>s'. drop_piece new_game 3 = Some (s', Inr (5, 3))) \<and>
   exception_type InvalidState = ''RuntimeError'' \<and>
   exception_type InvalidColumn = ''ValueError'' \<and>
   exception_type ColumnFull = ''ValueError''"
proof -
  have wf1: "well_formed (after column_game)"
    by (rule after_well_formed [OF games_succeed(1)])
  have wf2: "well_formed new_game"
    using well_formed_reset [of new_game] by (simp add: reset_new_game)
  have wf3: "well_formed (after full_column_game)"
    by (rule after_well_formed [OF games_succeed(3)])
  have go2: "\<not> game_over new_game"
    by (simp add: new_game_def reset_def)
  have nr2: "next_row new_game 3 = Some 5"
    by (simp add: new_game_def next_row_reset ROWS_def COLS_def)
  from drop_piece_failure_conditions [OF wf1, of 3] column_game_facts(1)
  have a: "drop_piece (after column_game) 3 = Some (after column_game, Inl InvalidState)"
    by blast
  from drop_piece_failure_conditions [OF wf2, of 7] go2
  have b: "drop_piece new_game 7 = Some (new_game, Inl InvalidColumn)"
    by (simp add: COLS_def)
  from drop_piece_failure_conditions [OF wf2, of "- 1"] go2
  have c: "drop_piece new_game (- 1) = Some (new_game, Inl InvalidColumn)"
    by simp
  from drop_piece_failure_conditions [OF wf3, of 0] full_column_game_facts
  have d: "drop_piece (after full_column_game) 0 = Some (after full_column_game, Inl ColumnFull)"
    by (simp add: COLS_def)
  from drop_piece_failure_conditions [OF wf2, of 3] go2 nr2
  have e: "\<exists>s'. drop_piece new_game 3 = Some (s', Inr (5, 3))"
    by (simp add: COLS_def)
  from drop_piece_failure_conditions [OF wf2, of 3]
  have t: "exception_type InvalidState = ''RuntimeError''"
    "exception_type InvalidColumn = ''ValueError''"
    "exception_type ColumnFull = ''ValueError''"
    by blast+
  from wf1 wf2 wf3 go2 nr2 a b c d e t column_game_facts(1) full_column_game_facts
  show ?thesis by blast
qed

text \<open>
  Claim C5: a call of \<open>drop_piece\<close> that fails with InvalidState, InvalidColumn or
  ColumnFull leaves the whole state as it was, in any state; in a state of an engine every
  failure is one of these three, so no failing call changes anything; and once the game is
  over every call fails with InvalidState, so that the state, and with it the board, the
  current player and the number of moves, stays what it is.
\<close>

theorem drop_piece_failure_no_change:
  "(drop_piece s col = Some (s', Inl e) \<and>
      (e = InvalidState \<or> e = InvalidColumn \<or> e = ColumnFull) \<longrightarrow> s' = s) \<and>
   (drop_piece s col = Some (s', Inl e) \<and> well_formed s \<longrightarrow>
      s' = s \<and> (e = InvalidState \<or> e = InvalidColumn \<or> e = ColumnFull)) \<and>
   (game_over s \<longrightarrow> drop_piece s col = Some (s, Inl InvalidState))"
proof -
  have a: "s' = s" if "drop_piece s col = Some (s', Inl e)"
    "e = InvalidState \<or> e = InvalidColumn \<or> e = ColumnFull"
    using that by (rule drop_piece_error_kinds)
  have b: "e = InvalidState \<or> e = InvalidColumn \<or> e = ColumnFull"
    if "drop_piece s col = Some (s', Inl e)" "well_formed s"
  proof -
    have "\<exists>row. next_row s col = Some row" if "0 \<le> col \<and> col < COLS"
      using \<open>well_formed s\<close> that by (auto simp: well_formed_def)
    with that(1) show ?thesis
      unfolding drop_piece_wf [OF that(2)]
      by (auto split: if_splits option.splits)
  qed
  have c: "drop_piece s col = Some (s, Inl InvalidState)" if "game_over s"
    using that by (simp add: drop_piece_def InvalidState_def)
  from a b c show ?thesis by blast
qed

theorem drop_piece_failure_no_change_witness:
  "game_over (after column_game) \<and>
   drop_piece (after column_game) 3 = Some (after column_game, Inl InvalidState) \<and>
   drop_piece new_game 7 = Some (new_game, Inl InvalidColumn) \<and>
   drop_piece (after full_column_game) 0 = Some (after full_column_game, Inl ColumnFull)"
proof -
  have a: "drop_piece (after column_game) 3 = Some (after column_game, Inl InvalidState)"
    using drop_piece_failure_no_change [of "after column_game" 3] column_game_facts(1)
    by blast
  have "\<exists>s'. drop_piece new_game 7 = Some (s', Inl InvalidColumn)"
    by (simp add: drop_piece_def InvalidColumn_def COLS_def new_game_def reset_def)
  then obtain s1 where s1: "drop_piece new_game 7 = Some (s1, Inl InvalidColumn)" ..
  with drop_piece_failure_no_change [of new_game 7 s1 InvalidColumn]
  have b: "drop_piece new_game 7 = Some (new_game, Inl InvalidColumn)"
    by simp
  have "\<exists>s'. drop_piece (after full_column_game) 0 = Some (s', Inl ColumnFull)"
    using full_column_game_facts
    by (simp add: drop_piece_def ColumnFull_def COLS_def)
  then obtain s2 where s2: "drop_piece (after full_column_game) 0 = Some (s2, Inl ColumnFull)" ..
  with drop_piece_failure_no_change [of "after full_column_game" 0 s2 ColumnFull]
  have c: "drop_piece (after full_column_game) 0 = Some (after full_column_game, Inl ColumnFull)"
    by simp
  from a b c column_game_facts(1) show ?thesis by blast
qed

section \<open>States reached by the moves of a game\<close>

lemma column_discs_filled:
  assumes "column_filled s c k"
  shows "column_discs (board s) c = [ROWS - int k..ROWS - 1]"
proof (rule sorted_distinct_set_unique)
  show "sorted (column_discs (board s) c)"
    unfolding column_discs_def by (rule sorted_wrt_filter) simp
  show "distinct (column_discs (board s) c)"
    unfolding column_discs_def by simp
  show "sorted [ROWS - int k..ROWS - 1]" by simp
  show "distinct [ROWS - int k..ROWS - 1]" by simp
  from assms have k: "int k \<le> ROWS"
    and cells: "\<And>r. 0 \<le> r \<and> r < ROWS \<Longrightarrow>
      (cell (board s) r c \<noteq> EMPTY) = (ROWS - int k \<le> r)"
    by (simp_all add: column_filled_def)
  have "(r \<in> set (column_discs (board s) c)) = (r \<in> set [ROWS - int k..ROWS - 1])" for r
  proof (cases "0 \<le> r \<and> r < ROWS")
    case True
    from cells [OF True] True show ?thesis
      by (auto simp: column_discs_def)
  next
    case False
    with k show ?thesis
      by (auto simp: column_discs_def)
  qed
  then show "set (column_discs (board s) c) = set [ROWS - int k..ROWS - 1]"
    by blast
qed

lemma target_cell_empty:
  assumes "consistent s h" "0 \<le> col" "col < COLS" "next_row s col = Some row" "0 \<le> row"
  shows "in_bounds row col \<and> cell (board s) row col = EMPTY"
proof -
  let ?k = "count_list h col"
  from assms have filled: "column_filled s col ?k"
    by (simp add: consistent_def)
  with assms have k: "row = ROWS - 1 - int ?k"
    by (simp add: column_filled_def)
  with assms have rowlt: "row < ROWS" by simp
  with filled assms
  have "(cell (board s) row col \<noteq> EMPTY) = (ROWS - int ?k \<le> row)"
    by (simp add: column_filled_def)
  with k rowlt assms show ?thesis
    by (simp add: in_bounds_def)
qed

text \<open>
  Claim C6: in the state reached from \<open>reset\<close> by the successful moves \<open>cols\<close>, a column \<open>c\<close>
  with next free row \<open>r\<close> holds exactly \<open>ROWS - (r + 1)\<close> discs, in the rows below \<open>r\<close> down to the
  bottom; and these are as many as the moves \<open>k\<close> played in that column, so that its discs
  are in the rows \<open>ROWS - k, ..., ROWS - 1\<close> and nowhere else.
\<close>

theorem columns_fill_from_bottom:
  assumes "play (reset s0) cols = Some s" "0 \<le> c" "c < COLS"
  shows "\<exists>r. next_row s c = Some r \<and>
           int (length (column_discs (board s) c)) = ROWS - (r + 1) \<and>
           column_discs (board s) c = [r + 1..ROWS - 1] \<and>
           int (count_list cols c) = ROWS - (r + 1) \<and>
           column_discs (board s) c = [ROWS - int (count_list cols c)..ROWS - 1]"
proof -
  let ?k = "count_list cols c"
  from consistent_reachable [OF assms(1)] assms(2,3)
  have filled: "column_filled s c ?k"
    by (simp add: consistent_def)
  then have nr: "next_row s c = Some (ROWS - 1 - int ?k)" and k: "int ?k \<le> ROWS"
    by (simp_all add: column_filled_def)
  have discs: "column_discs (board s) c = [ROWS - int ?k..ROWS - 1]"
    using filled by (rule column_discs_filled)
  with k have "int (length (column_discs (board s) c)) = int ?k"
    by simp
  with nr discs show ?thesis by simp
qed

theorem columns_fill_from_bottom_witness:
  "play (reset new_game) diagonal_game = Some (after diagonal_game) \<and> (0::int) \<le> 3 \<and>
   3 < COLS \<and> count_list diagonal_game 3 = 3 \<and>
   next_row (after diagonal_game) 3 = Some 2 \<and>
   length (column_discs (board (after diagonal_game)) 3) = 3 \<and>
   column_discs (board (after diagonal_game)) 3 = [3, 4, 5]"
proof -
  have p: "play (reset new_game) diagonal_game = Some (after diagonal_game)"
    by (rule after_play [OF games_succeed(2)])
  have c: "(0::int) \<le> 3" "3 < COLS"
    by (simp_all add: COLS_def)
  from columns_fill_from_bottom [OF p c] p c show ?thesis
    by (simp add: diagonal_game_facts ROWS_def)
qed

text \<open>
  Claim C7: in the state reached from \<open>reset\<close> by any successful moves, \<open>moves_made\<close> is the
  number of cells of the board that are not EMPTY.
\<close>

theorem moves_made_counts_discs:
  assumes "play (reset s0) cols = Some s"
  shows "moves_made s = int (count_nonempty (board s))"
  using consistent_reachable [OF assms] by (simp add: consistent_def)

theorem moves_made_counts_discs_witness:
  "play (reset new_game) diagonal_game = Some (after diagonal_game) \<and>
   moves_made (after diagonal_game) = int (count_nonempty (board (after diagonal_game))) \<and>
   moves_made (after diagonal_game) = 10"
proof -
  have p: "play (reset new_game) diagonal_game = Some (after diagonal_game)"
    by (rule after_play [OF games_succeed(2)])
  from moves_made_counts_discs [OF p] p show ?thesis
    by (simp add: diagonal_game_facts)
qed

text \<open>
  Claim C10: in the state reached from \<open>reset\<close> by any successful moves, the board has its
  shape and each cell holds EMPTY = 0, PLAYER1 = 1 or PLAYER2 = 2. A successful call of
  \<open>drop_piece\<close> from there writes a player to a cell that was EMPTY and leaves every other
  cell, so every cell that was not EMPTY, as it was; a failing call leaves the board as it
  was. So only \<open>reset\<close>, which makes every cell EMPTY, clears a cell.
\<close>

theorem cells_written_once:
  assumes "play (reset s0) cols = Some s"
  shows "EMPTY = 0 \<and> PLAYER1 = 1 \<and> PLAYER2 = 2 \<and> wf_board (board s) \<and>
         (\<forall>r c. in_bounds r c \<longrightarrow>
            cell (board s) r c = EMPTY \<or> cell (board s) r c = PLAYER1 \<or>
            cell (board s) r c = PLAYER2) \<and>
         (\<forall>col s' row c. drop_piece s col = Some (s', Inr (row, c)) \<longrightarrow>
            in_bounds row c \<and> cell (board s) row c = EMPTY \<and>
            (cell (board s') row c = PLAYER1 \<or> cell (board s') row c = PLAYER2) \<and>
            (\<forall>r' c'. in_bounds r' c' \<and> (r', c') \<noteq> (row, c) \<longrightarrow>
               cell (board s') r' c' = cell (board s) r' c') \<and>
            (\<forall>r' c'. in_bounds r' c' \<and> cell (board s) r' c' \<noteq> EMPTY \<longrightarrow>
               cell (board s') r' c' = cell (board s) r' c')) \<and>
         (\<forall>col s' e. drop_piece s col = Some (s', Inl e) \<longrightarrow> board s' = board s)"
proof -
  have inv: "consistent s cols"
    using assms by (rule consistent_reachable)
  then have wf: "well_formed s"
    by (rule consistent_well_formed)
  from inv have b: "wf_board (board s)"
    and p: "current_player s = PLAYER1 \<or> current_player s = PLAYER2"
    by (simp_all add: consistent_def)
  have range: "\<forall>r c. in_bounds r c \<longrightarrow>
      cell (board s) r c = EMPTY \<or> cell (board s) r c = PLAYER1 \<or> cell (board s) r c = PLAYER2"
    using inv by (simp add: consistent_def)
  have ok: "in_bounds row c \<and> cell (board s) row c = EMPTY \<and>
      (cell (board s') row c = PLAYER1 \<or> cell (board s') row c = PLAYER2) \<and>
      (\<forall>r' c'. in_bounds r' c' \<and> (r', c') \<noteq> (row, c) \<longrightarrow>
         cell (board s') r' c' = cell (board s) r' c') \<and>
      (\<forall>r' c'. in_bounds r' c' \<and> cell (board s) r' c' \<noteq> EMPTY \<longrightarrow>
         cell (board s') r' c' = cell (board s) r' c')"
    if d: "drop_piece s col = Some (s', Inr (row, c))" for col s' row c
  proof -
    from drop_piece_success_cases [OF wf d]
    have col: "0 \<le> col" "col < COLS" and c: "c = col"
      and row: "next_row s col = Some row" "0 \<le> row"
      and s': "s' = outcome s row col"
      by simp_all
    from target_cell_empty [OF inv col row]
    have inb: "in_bounds row col" and empty: "cell (board s) row col = EMPTY"
      by simp_all
    have cells: "cell (board s') r' c' =
        (if r' = row \<and> c' = col then current_player s else cell (board s) r' c')"
      if "in_bounds r' c'" for r' c'
      by (simp add: s' outcome_fields cell_place [OF b inb that])
    from cells [OF inb] p
    have "cell (board s') row col = PLAYER1 \<or> cell (board s') row col = PLAYER2"
      by simp
    moreover from cells have "\<forall>r' c'. in_bounds r' c' \<and> (r', c') \<noteq> (row, col) \<longrightarrow>
        cell (board s') r' c' = cell (board s) r' c'"
      by auto
    moreover from cells empty have "\<forall>r' c'. in_bounds r' c' \<and> cell (board s) r' c' \<noteq> EMPTY \<longrightarrow>
        cell (board s') r' c' = cell (board s) r' c'"
      by auto
    ultimately show ?thesis
      using inb empty c by simp
  qed
  have fail: "board s' = board s" if "drop_piece s col = Some (s', Inl e)" for col s' e
    using that unfolding drop_piece_wf [OF wf]
    by (auto split: if_splits option.splits)
  have codes: "EMPTY = 0 \<and> PLAYER1 = 1 \<and> PLAYER2 = 2"
    by (simp add: EMPTY_def PLAYER1_def PLAYER2_def)
  from codes b range ok fail show ?thesis
    by blast
qed

theorem cells_written_once_witness:
  "play (reset new_game) diagonal_game = Some (after diagonal_game) \<and>
   drop_piece (after diagonal_game) 3 = Some (outcome (after diagonal_game) 2 3, Inr (2, 3)) \<and>
   cell (board (after diagonal_game)) 2 3 = 0 \<and>
   cell (board (outcome (after diagonal_game) 2 3)) 2 3 = 1 \<and>
   cell (board (after diagonal_game)) 5 2 = 1 \<and>
   cell (board (outcome (after diagonal_game) 2 3)) 5 2 = 1"
proof -
  let ?s = "after diagonal_game"
  have p: "play (reset new_game) diagonal_game = Some ?s"
    by (rule after_play [OF games_succeed(2)])
  have wf: "well_formed ?s"
    by (rule after_well_formed [OF games_succeed(2)])
  have "(0::int) \<le> 3" "3 < COLS" "(0::int) \<le> 2"
    by (simp_all add: COLS_def)
  with wf diagonal_game_facts(1,2)
  have d: "drop_piece ?s 3 = Some (outcome ?s 2 3, Inr (2, 3))"
    by (intro drop_piece_success)
  have inb: "in_bounds 5 2"
    by (simp add: in_bounds_def ROWS_def COLS_def)
  from cells_written_once [OF p] d
  have "cell (board ?s) 2 3 = EMPTY"
    and "\<forall>r' c'. in_bounds r' c' \<and> cell (board ?s) r' c' \<noteq> EMPTY \<longrightarrow>
       cell (board (outcome ?s 2 3)) r' c' = cell (board ?s) r' c'"
    by blast+
  with inb have "cell (board (outcome ?s 2 3)) 5 2 = 1"
    by (simp add: diagonal_game_facts EMPTY_def)
  moreover have "cell (board (outcome ?s 2 3)) 2 3 = 1"
    using after_consistent [OF games_succeed(2)] inb
    by (simp add: outcome_fields consistent_def cell_place in_bounds_def ROWS_def COLS_def
        diagonal_game_facts)
  ultimately show ?thesis
    using p d by (simp add: diagonal_game_facts)
qed

section \<open>The draw\<close>

text \<open>
  Claim C8, as stated, has a 43rd move end a drawn game. The board has 42 cells: in the
  game \<open>draw_game\<close> the 42 moves succeed and fill the board with no winner, the game is not
  over after the first 41 and is over after the 42nd, and a further call, in any column,
  fails with InvalidState and changes nothing.
\<close>

theorem draw_on_43rd_move_counterexample:
  "play new_game draw_game \<noteq> None \<and> length draw_game = 42 \<and>
   count_nonempty (board (after draw_game)) = 42 \<and> winner (after draw_game) = None \<and>
   \<not> game_over (after draw_prefix) \<and> game_over (after draw_game) \<and>
   drop_piece (after draw_game) 0 = Some (after draw_game, Inl InvalidState) \<and>
   drop_piece (after draw_game) 3 = Some (after draw_game, Inl InvalidState) \<and>
   drop_piece (after draw_game) 6 = Some (after draw_game, Inl InvalidState)"
proof -
  have "drop_piece (after draw_game) col = Some (after draw_game, Inl InvalidState)" for col
    using draw_game_facts(1) by (simp add: drop_piece_def InvalidState_def)
  with games_succeed(5) draw_game_facts draw_prefix_facts(1) show ?thesis
    by simp
qed

text \<open>
  Claim C8, amended: in the state reached from \<open>reset\<close> by successful moves, a successful
  move that completes no line of 4 along the row, the column or a diagonal and brings
  \<open>moves_made\<close> to \<open>ROWS * COLS\<close> leaves the game over with no winner. It is the 42nd move of
  the game (41 came before) and the board is then full; every further call, the 43rd,
  fails with InvalidState and changes nothing.
\<close>

theorem draw_on_last_cell:
  assumes "play (reset s0) cols = Some s" "drop_piece s col = Some (s', Inr (row, c))"
    and "\<not> (\<exists>(dr, dc) \<in> set [(0, 1), (1, 0), (1, 1), (1, - 1)].
              line_length (board s') row c dr dc (current_player s) \<ge> 4)"
    and "moves_made s' = ROWS * COLS"
  shows "\<not> game_over s \<and> game_over s' \<and> winner s' = None \<and>
         length cols = 41 \<and> count_nonempty (board s') = 42 \<and>
         (\<forall>col'. drop_piece s' col' = Some (s', Inl InvalidState))"
proof -
  have inv: "consistent s cols"
    using assms(1) by (rule consistent_reachable)
  from drop_piece_success_cases [OF consistent_well_formed [OF inv] assms(2)]
  have go: "\<not> game_over s" and c: "c = col" and s': "s' = outcome s row col"
    by simp_all
  from inv go have w: "winner s = None" and m: "moves_made s = int (length cols)"
    by (simp_all add: consistent_def)
  from assms(3) have "\<not> four_in_line (board s') row c (current_player s)"
    by (simp add: four_in_line_def directions_def CONNECT_def)
  then have nowin: "\<not> four_in_line (board (placed s row col)) row col (current_player s)"
    by (simp add: c s' outcome_fields placed_def)
  from assms(4) have full: "moves_made (placed s row col) = ROWS * COLS"
    by (simp add: s' outcome_fields placed_def)
  from nowin full have s'': "s' = (placed s row col)\<lparr>game_over := True\<rparr>"
    by (simp add: s' outcome_def Let_def)
  from consistent_step [OF inv assms(2)] assms(4)
  have "int (count_nonempty (board s')) = ROWS * COLS"
    by (simp add: consistent_def)
  then have "count_nonempty (board s') = 42"
    by (simp add: ROWS_def COLS_def)
  moreover from full m have "length cols = 41"
    by (simp add: placed_def ROWS_def COLS_def)
  moreover from w have over: "winner s' = None" "game_over s'"
    by (simp_all add: s'' placed_def)
  moreover from over(2) have "\<forall>col'. drop_piece s' col' = Some (s', Inl InvalidState)"
    by (simp add: drop_piece_def InvalidState_def)
  ultimately show ?thesis
    using go by simp
qed

theorem draw_on_last_cell_witness:
  "play (reset new_game) draw_prefix = Some (after draw_prefix) \<and>
   drop_piece (after draw_prefix) 6 = Some (outcome (after draw_prefix) 0 6, Inr (0, 6)) \<and>
   \<not> (\<exists>(dr, dc) \<in> set [(0, 1), (1, 0), (1, 1), (1, - 1)].
         line_length (board (outcome (after draw_prefix) 0 6)) 0 6 dr dc
           (current_player (after draw_prefix)) \<ge> 4) \<and>
   moves_made (outcome (after draw_prefix) 0 6) = ROWS * COLS \<and>
   \<not> game_over (after draw_prefix) \<and> game_over (outcome (after draw_prefix) 0 6) \<and>
   winner (outcome (after draw_prefix) 0 6) = None \<and> length draw_prefix = 41 \<and>
   count_nonempty (board (outcome (after draw_prefix) 0 6)) = 42 \<and>
   drop_piece (outcome (after draw_prefix) 0 6) 3 =
     Some (outcome (after draw_prefix) 0 6, Inl InvalidState)"
proof -
  let ?s = "after draw_prefix"
  have p: "play (reset new_game) draw_prefix = Some ?s"
    by (rule after_play [OF games_succeed(4)])
  have wf: "well_formed ?s"
    by (rule after_well_formed [OF games_succeed(4)])
  have "(0::int) \<le> 6" "6 < COLS" "(0::int) \<le> 0"
    by (simp_all add: COLS_def)
  with wf draw_prefix_facts(1,2)
  have d: "drop_piece ?s 6 = Some (outcome ?s 0 6, Inr (0, 6))"
    by (intro drop_piece_success)
  have f: "\<not> (\<exists>(dr, dc) \<in> set [(0, 1), (1, 0), (1, 1), (1, - 1)].
      line_length (board (outcome ?s 0 6)) 0 6 dr dc (current_player ?s) \<ge> 4)"
    by (simp add: outcome_fields draw_prefix_facts draw_prefix_lines)
  have m: "moves_made (outcome ?s 0 6) = ROWS * COLS"
    by (simp add: outcome_fields draw_prefix_facts ROWS_def COLS_def)
  from draw_on_last_cell [OF p d f m] p d f m show ?thesis
    by simp
qed

end
